theory Spec2Isabelle
  imports Complex_Main
begin

section \<open>Python values and exceptions\<close>

text \<open>
  The exceptions the modelled functions can raise.  A function that may raise
  returns \<open>py_error + 'a\<close>, with \<open>Inl\<close> for the exception.
\<close>

datatype py_error =
    TypeError
  | ValueError
  | IndexError
  | KeyError
  | AttributeError
  | AssertionError
  | FileNotFoundError
  | NotImplementedError
  | CacheMissError
  | ConfigurationError

text \<open>The Python values that are stored in documents and in configuration dictionaries.\<close>

datatype pyval = PyNone | PyBool bool | PyInt int | PyStr string



section \<open>Dispatcher strategies (parsley/strategies.py)\<close>

text \<open>
  Retry values are Python numbers.  The file is Python 3, so \<open>previous_retry / 2\<close>
  is true division and its result need not be an integer; the numbers are modelled as
  exact rationals, in which every Python integer and every half of one is represented
  exactly.  \<open>previous_retry\<close> is \<open>None\<close> when scheduling for the first time.
  The four node collections are only ever measured with \<open>len\<close>.
\<close>

definition linear_increase ::
  "rat \<Rightarrow> rat \<Rightarrow> rat \<Rightarrow> rat option \<Rightarrow> 'n list \<Rightarrow> 'n list \<Rightarrow> 'n list \<Rightarrow> 'n list \<Rightarrow> py_error + rat" where
  "linear_increase start_retry max_retry step previous_retry active_nodes failed_nodes started_nodes fallback_nodes =
     (if length started_nodes > 0 \<or> length fallback_nodes > 0 then
        (case previous_retry of
           None \<Rightarrow> Inl TypeError
         | Some p \<Rightarrow>
             (let retry = p + step in
              if retry > max_retry then Inr max_retry else Inr retry))
      else Inr start_retry)"

definition linear_adopt ::
  "rat \<Rightarrow> rat \<Rightarrow> rat \<Rightarrow> rat option \<Rightarrow> 'n list \<Rightarrow> 'n list \<Rightarrow> 'n list \<Rightarrow> 'n list \<Rightarrow> py_error + rat" where
  "linear_adopt start_retry max_retry step previous_retry active_nodes failed_nodes started_nodes fallback_nodes =
     (if length started_nodes > 0 \<or> length fallback_nodes > 0 then
        (case previous_retry of
           None \<Rightarrow> Inl TypeError
         | Some p \<Rightarrow>
             (let retry = p + step in
              if retry > max_retry then Inr max_retry else Inr retry))
      else
        (case previous_retry of
           None \<Rightarrow> Inl TypeError
         | Some p \<Rightarrow>
             (let retry = p - step in
              if retry < start_retry then Inr start_retry else Inr retry)))"

definition biexponential_increase ::
  "rat \<Rightarrow> rat \<Rightarrow> rat option \<Rightarrow> 'n list \<Rightarrow> 'n list \<Rightarrow> 'n list \<Rightarrow> 'n list \<Rightarrow> py_error + rat" where
  "biexponential_increase start_retry max_retry previous_retry active_nodes failed_nodes started_nodes fallback_nodes =
     (case previous_retry of
        None \<Rightarrow> Inr start_retry
      | Some p \<Rightarrow>
          (if length started_nodes > 0 \<or> length fallback_nodes > 0 then
             (let retry = p * 2 in
              if retry > max_retry then Inr max_retry else Inr retry)
           else Inr start_retry))"

definition biexponential_adopt ::
  "rat \<Rightarrow> rat \<Rightarrow> rat option \<Rightarrow> 'n list \<Rightarrow> 'n list \<Rightarrow> 'n list \<Rightarrow> 'n list \<Rightarrow> py_error + rat" where
  "biexponential_adopt start_retry max_retry previous_retry active_nodes failed_nodes started_nodes fallback_nodes =
     (case previous_retry of
        None \<Rightarrow> Inr start_retry
      | Some p \<Rightarrow>
          (if length started_nodes > 0 \<or> length fallback_nodes > 0 then
             (let retry = p * 2 in
              if retry > max_retry then Inr max_retry else Inr retry)
           else
             (let retry = p / 2 in
              if retry < start_retry then Inr start_retry else Inr retry)))"



subsection \<open>The branch a call takes\<close>

text \<open>
  The same four functions, line for line, returning beside the result the branch of
  the source that produced it: the early return for an unset \<open>previous_retry\<close>, the
  branch under \<open>len(started_nodes) > 0 or len(fallback_nodes) > 0\<close>, or its
  \<open>else\<close>.  \<open>random\<close> has no branch.
\<close>

datatype branch = Unset_branch | Growth_branch | Else_branch

definition linear_increase_trace ::
  "rat \<Rightarrow> rat \<Rightarrow> rat \<Rightarrow> rat option \<Rightarrow> 'n list \<Rightarrow> 'n list \<Rightarrow> 'n list \<Rightarrow> 'n list \<Rightarrow> branch \<times> (py_error + rat)" where
  "linear_increase_trace start_retry max_retry step previous_retry active_nodes failed_nodes started_nodes fallback_nodes =
     (if length started_nodes > 0 \<or> length fallback_nodes > 0 then
        (Growth_branch,
         case previous_retry of
           None \<Rightarrow> Inl TypeError
         | Some p \<Rightarrow>
             (let retry = p + step in
              if retry > max_retry then Inr max_retry else Inr retry))
      else (Else_branch, Inr start_retry))"

definition linear_adopt_trace ::
  "rat \<Rightarrow> rat \<Rightarrow> rat \<Rightarrow> rat option \<Rightarrow> 'n list \<Rightarrow> 'n list \<Rightarrow> 'n list \<Rightarrow> 'n list \<Rightarrow> branch \<times> (py_error + rat)" where
  "linear_adopt_trace start_retry max_retry step previous_retry active_nodes failed_nodes started_nodes fallback_nodes =
     (if length started_nodes > 0 \<or> length fallback_nodes > 0 then
        (Growth_branch,
         case previous_retry of
           None \<Rightarrow> Inl TypeError
         | Some p \<Rightarrow>
             (let retry = p + step in
              if retry > max_retry then Inr max_retry else Inr retry))
      else
        (Else_branch,
         case previous_retry of
           None \<Rightarrow> Inl TypeError
         | Some p \<Rightarrow>
             (let retry = p - step in
              if retry < start_retry then Inr start_retry else Inr retry)))"

definition biexponential_increase_trace ::
  "rat \<Rightarrow> rat \<Rightarrow> rat option \<Rightarrow> 'n list \<Rightarrow> 'n list \<Rightarrow> 'n list \<Rightarrow> 'n list \<Rightarrow> branch \<times> (py_error + rat)" where
  "biexponential_increase_trace start_retry max_retry previous_retry active_nodes failed_nodes started_nodes fallback_nodes =
     (case previous_retry of
        None \<Rightarrow> (Unset_branch, Inr start_retry)
      | Some p \<Rightarrow>
          (if length started_nodes > 0 \<or> length fallback_nodes > 0 then
             (Growth_branch,
              let retry = p * 2 in
              if retry > max_retry then Inr max_retry else Inr retry)
           else (Else_branch, Inr start_retry)))"

definition biexponential_adopt_trace ::
  "rat \<Rightarrow> rat \<Rightarrow> rat option \<Rightarrow> 'n list \<Rightarrow> 'n list \<Rightarrow> 'n list \<Rightarrow> 'n list \<Rightarrow> branch \<times> (py_error + rat)" where
  "biexponential_adopt_trace start_retry max_retry previous_retry active_nodes failed_nodes started_nodes fallback_nodes =
     (case previous_retry of
        None \<Rightarrow> (Unset_branch, Inr start_retry)
      | Some p \<Rightarrow>
          (if length started_nodes > 0 \<or> length fallback_nodes > 0 then
             (Growth_branch,
              let retry = p * 2 in
              if retry > max_retry then Inr max_retry else Inr retry)
           else
             (Else_branch,
              let retry = p / 2 in
              if retry < start_retry then Inr start_retry else Inr retry)))"

section \<open>Global configuration (parsley/globalConfig.py)\<close>

text \<open>
  The three settings are attributes of the class itself; \<open>from_dict\<close> is a class
  method, so the class state is passed in and returned.  The dictionary has string keys.
\<close>

record global_config =
  predicates_module :: pyval
  trace :: pyval
  dispatcher_strategy :: pyval

definition GlobalConfig :: global_config where
  "GlobalConfig =
     \<lparr>predicates_module = PyStr ''parsley.predicates'', trace = PyNone, dispatcher_strategy = PyNone\<rparr>"

definition from_dict :: "global_config \<Rightarrow> (string \<rightharpoonup> pyval) \<Rightarrow> global_config" where
  "from_dict cls d =
     (if ''predicates_module'' \<in> dom d
      then (case d ''predicates_module'' of
              None \<Rightarrow> cls
            | Some v \<Rightarrow> cls\<lparr>predicates_module := v\<rparr>)
      else cls)"

section \<open>MongoDB storage adapter (selinonlib/storages/mongo.py)\<close>

text \<open>
  A document is a dictionary with string keys.  The collection handle of a connected
  adapter is modelled by the documents the collection holds, in insertion order; the
  names given to \<open>retrieve\<close> and \<open>store\<close> are strings.
\<close>

type_synonym document = "string \<rightharpoonup> pyval"

record mongo_storage =
  client :: "(string \<times> nat) option"
  collection :: "document list option"
  db :: "string option"
  host :: string
  port :: nat
  db_name :: string
  collection_name :: string

definition MongoStorage :: "string \<Rightarrow> string \<Rightarrow> string \<Rightarrow> nat \<Rightarrow> mongo_storage" where
  "MongoStorage db_name' collection_name' host' port' =
     \<lparr>client = None, collection = None, db = None, host = host', port = port',
      db_name = db_name', collection_name = collection_name'\<rparr>"

definition is_connected :: "mongo_storage \<Rightarrow> bool" where
  "is_connected self = (client self \<noteq> None)"

text \<open>\<open>connect\<close> opens the collection; \<open>server_docs\<close> is what the server holds in it.\<close>

definition connect :: "mongo_storage \<Rightarrow> document list \<Rightarrow> mongo_storage" where
  "connect self server_docs =
     self\<lparr>client := Some (host self, port self),
          db := Some (db_name self),
          collection := Some server_docs\<rparr>"

definition disconnect :: "mongo_storage \<Rightarrow> mongo_storage" where
  "disconnect self =
     (if is_connected self then self\<lparr>client := None, db := None, collection := None\<rparr> else self)"

text \<open>
  The pymongo calls \<open>retrieve\<close> makes.  \<open>collection.find({'task_id': task_id}, {'_id': 0})\<close>
  gives a cursor over the documents whose \<open>task_id\<close> field equals \<open>task_id\<close>, each
  without its \<open>_id\<close>; the cursor is modelled by the list of these documents.
  \<open>cursor.count()\<close> is their number.  The class \<open>Cursor\<close> defines neither
  \<open>__bool__\<close> nor \<open>__len__\<close>, so the truth value of a cursor is \<open>True\<close> whatever it
  holds.  \<open>cursor[0]\<close> raises \<open>IndexError\<close> on a cursor without documents.
\<close>

definition collection_find :: "document list \<Rightarrow> string \<Rightarrow> document list" where
  "collection_find docs task_id =
     map (\<lambda>d. d(''_id'' := None)) (filter (\<lambda>d. d ''task_id'' = Some (PyStr task_id)) docs)"

definition cursor_count :: "document list \<Rightarrow> nat" where
  "cursor_count cursor = length cursor"

definition cursor_bool :: "document list \<Rightarrow> bool" where
  "cursor_bool cursor = True"

definition cursor_getitem :: "document list \<Rightarrow> nat \<Rightarrow> py_error + document" where
  "cursor_getitem cursor i = (if i < length cursor then Inr (cursor ! i) else Inl IndexError)"

definition retrieve :: "mongo_storage \<Rightarrow> string \<Rightarrow> string \<Rightarrow> string \<Rightarrow> py_error + pyval" where
  "retrieve self flow_name task_name task_id =
     (if \<not> is_connected self then Inl AssertionError
      else case collection self of
        None \<Rightarrow> Inl AttributeError
      | Some docs \<Rightarrow>
          (let cursor = collection_find docs task_id in
           if cursor_count cursor > 1 then Inl ValueError
           else if \<not> cursor_bool cursor then Inl FileNotFoundError
           else case cursor_getitem cursor 0 of
             Inl e \<Rightarrow> Inl e
           | Inr rec \<Rightarrow>
               (case rec ''task_name'' of
                  None \<Rightarrow> Inl KeyError
                | Some stored_name \<Rightarrow>
                    if PyStr task_name \<noteq> stored_name then Inl AssertionError
                    else Inr (case rec ''result'' of None \<Rightarrow> PyNone | Some r \<Rightarrow> r))))"

text \<open>
  \<open>collection.insert(record)\<close> appends the record; the server gives it an \<open>_id\<close>,
  here its position in the collection.
\<close>

definition store ::
  "mongo_storage \<Rightarrow> pyval \<Rightarrow> string \<Rightarrow> string \<Rightarrow> string \<Rightarrow> pyval \<Rightarrow> py_error + (string \<times> mongo_storage)" where
  "store self node_args flow_name task_name task_id result =
     (if \<not> is_connected self then Inl AssertionError
      else case collection self of
        None \<Rightarrow> Inl AttributeError
      | Some docs \<Rightarrow>
          (let rec = [''flow_name'' \<mapsto> PyStr flow_name,
                      ''node_args'' \<mapsto> node_args,
                      ''task_name'' \<mapsto> PyStr task_name,
                      ''task_id'' \<mapsto> PyStr task_id,
                      ''result'' \<mapsto> result]
           in Inr (task_id,
                   self\<lparr>collection := Some (docs @ [rec(''_id'' \<mapsto> PyInt (int (length docs)))])\<rparr>)))"


section \<open>Result cache and eviction policies (selinonlib/caches)\<close>

text \<open>
  Modelled from the spec: the classes \<open>FIFO\<close>, \<open>LIFO\<close>, \<open>LRU\<close>, \<open>MRU\<close> and \<open>RR\<close>
  that \<open>selinonlib/caches/__init__.py\<close> imports (and \<open>CacheMissError\<close>) are not among
  the source files; only the import list and the tests of \<open>LRU\<close> are.  The definitions
  of this section follow the spec's data model (section 3) and the contract and the
  eviction table of its section 4.1.
\<close>

datatype policy = FIFO | LIFO | LRU | MRU | RR

text \<open>
  Modelled from the spec: a \<open>CacheEntry\<close> is \<open>{key, value, recency_rank}\<close>; the rank
  is the value of a sequence counter that only grows, given at insertion and, for the
  policies that order by use, at each use.
\<close>

record ('k, 'v) cache_entry =
  entry_key :: 'k
  entry_value :: 'v
  recency_rank :: nat

text \<open>
  Modelled from the spec: a \<open>ResultCache\<close> is a bounded store of entries under one
  eviction policy; it keeps the sequence counter that ranks are taken from.
\<close>

record ('k, 'v) cache =
  cache_policy :: policy
  max_cache_size :: nat
  entries :: "('k, 'v) cache_entry list"
  sequence_counter :: nat

text \<open>
  Modelled from the spec: \<open>max_cache_size\<close> is a positive integer fixed at
  construction; a non-positive one is a \<open>ConfigurationError\<close> raised there.
\<close>

definition new_cache :: "policy \<Rightarrow> int \<Rightarrow> py_error + ('k, 'v) cache" where
  "new_cache pol n =
     (if n < 1 then Inl ConfigurationError
      else Inr \<lparr>cache_policy = pol, max_cache_size = nat n, entries = [], sequence_counter = 0\<rparr>)"

text \<open>Modelled from the spec: \<open>size()\<close> is the number of entries held.\<close>

definition cache_size :: "('k, 'v) cache \<Rightarrow> nat" where
  "cache_size c = length (entries c)"

text \<open>Modelled from the spec: the keys of the entries held (the key space is flat).\<close>

definition cache_keys :: "('k, 'v) cache \<Rightarrow> 'k set" where
  "cache_keys c = set (map entry_key (entries c))"

text \<open>Modelled from the spec: keys are unique, so a key has at most one entry.\<close>

fun lookup :: "'k \<Rightarrow> ('k, 'v) cache_entry list \<Rightarrow> ('k, 'v) cache_entry option" where
  "lookup k [] = None"
| "lookup k (e # es) = (if entry_key e = k then Some e else lookup k es)"

text \<open>
  Modelled from the spec: an overwrite or a use changes the one entry of the key, in
  place.
\<close>

definition update_entry ::
  "'k \<Rightarrow> (('k, 'v) cache_entry \<Rightarrow> ('k, 'v) cache_entry) \<Rightarrow> ('k, 'v) cache_entry list
    \<Rightarrow> ('k, 'v) cache_entry list" where
  "update_entry k f es = map (\<lambda>e. if entry_key e = k then f e else e) es"

text \<open>
  Modelled from the spec: the victim is the entry with the oldest insertion time
  (\<open>FIFO\<close>), the newest insertion time (\<open>LIFO\<close>), the oldest last use (\<open>LRU\<close>), the
  newest last use (\<open>MRU\<close>), or a random one of the current entries (\<open>RR\<close>).  Times
  are ranks; the random choice is the explicit argument \<open>draw\<close>, reduced to an index.
\<close>

fun oldest :: "('k, 'v) cache_entry \<Rightarrow> ('k, 'v) cache_entry list \<Rightarrow> ('k, 'v) cache_entry" where
  "oldest e [] = e"
| "oldest e (x # xs) = oldest (if recency_rank x < recency_rank e then x else e) xs"

fun newest :: "('k, 'v) cache_entry \<Rightarrow> ('k, 'v) cache_entry list \<Rightarrow> ('k, 'v) cache_entry" where
  "newest e [] = e"
| "newest e (x # xs) = newest (if recency_rank e < recency_rank x then x else e) xs"

text \<open>
  Modelled from the spec: the victim selection of the eviction table, by policy; an
  empty cache has no victim.
\<close>

definition choose_victim ::
  "policy \<Rightarrow> nat \<Rightarrow> ('k, 'v) cache_entry list \<Rightarrow> ('k, 'v) cache_entry option" where
  "choose_victim pol draw es =
     (case es of
        [] \<Rightarrow> None
      | e # rest \<Rightarrow>
          Some (case pol of
                  FIFO \<Rightarrow> oldest e rest
                | LIFO \<Rightarrow> newest e rest
                | LRU \<Rightarrow> oldest e rest
                | MRU \<Rightarrow> newest e rest
                | RR \<Rightarrow> es ! (draw mod length es)))"

text \<open>
  Modelled from the spec: a successful \<open>get\<close> moves the entry to the most recently
  used position under \<open>LRU\<close> and \<open>MRU\<close> and has no effect on the order otherwise;
  an overwriting \<open>add\<close> does so under \<open>LRU\<close> and \<open>MRU\<close>, resets the insertion time
  under \<open>LIFO\<close>, and leaves the order alone under \<open>FIFO\<close> and \<open>RR\<close>.
\<close>

definition get_updates_order :: "policy \<Rightarrow> bool" where
  "get_updates_order pol = (pol = LRU \<or> pol = MRU)"

definition overwrite_updates_order :: "policy \<Rightarrow> bool" where
  "overwrite_updates_order pol = (pol = LIFO \<or> pol = LRU \<or> pol = MRU)"

text \<open>
  Modelled from the spec: \<open>add(key, value)\<close> never fails.  A present key has its
  value overwritten.  A new key is inserted with the next rank, after exactly one
  entry, chosen by the policy, has been evicted if the cache is at capacity.
\<close>

definition add :: "('k, 'v) cache \<Rightarrow> 'k \<Rightarrow> 'v \<Rightarrow> nat \<Rightarrow> ('k, 'v) cache" where
  "add c k v draw =
     (case lookup k (entries c) of
        Some present \<Rightarrow>
          (if overwrite_updates_order (cache_policy c)
           then c\<lparr>entries :=
                    update_entry k (\<lambda>e. e\<lparr>entry_value := v, recency_rank := sequence_counter c\<rparr>)
                      (entries c),
                  sequence_counter := sequence_counter c + 1\<rparr>
           else c\<lparr>entries := update_entry k (\<lambda>e. e\<lparr>entry_value := v\<rparr>) (entries c)\<rparr>)
      | None \<Rightarrow>
          (let kept =
                 (if length (entries c) \<ge> max_cache_size c
                  then (case choose_victim (cache_policy c) draw (entries c) of
                          None \<Rightarrow> entries c
                        | Some victim \<Rightarrow> remove1 victim (entries c))
                  else entries c)
           in c\<lparr>entries :=
                    kept @ [\<lparr>entry_key = k, entry_value = v, recency_rank = sequence_counter c\<rparr>],
                  sequence_counter := sequence_counter c + 1\<rparr>))"

text \<open>
  Modelled from the spec: \<open>get(key)\<close> fails with \<open>CacheMiss\<close> when the key is absent;
  on success it returns the value, beside the cache with the entry's use recorded.
\<close>

definition get :: "('k, 'v) cache \<Rightarrow> 'k \<Rightarrow> py_error + ('v \<times> ('k, 'v) cache)" where
  "get c k =
     (case lookup k (entries c) of
        None \<Rightarrow> Inl CacheMissError
      | Some e \<Rightarrow>
          Inr (entry_value e,
               if get_updates_order (cache_policy c)
               then c\<lparr>entries :=
                        update_entry k (\<lambda>e. e\<lparr>recency_rank := sequence_counter c\<rparr>) (entries c),
                      sequence_counter := sequence_counter c + 1\<rparr>
               else c))"

subsection \<open>Sequences of calls\<close>

text \<open>
  A call of the cache: an \<open>add\<close> with its key, value and random draw, or a \<open>get\<close>.
  A \<open>get\<close> that misses raises before it changes anything, and the caller goes on
  with the cache as it was.
\<close>

datatype ('k, 'v) cache_call = Add 'k 'v nat | Get 'k

fun call :: "('k, 'v) cache \<Rightarrow> ('k, 'v) cache_call \<Rightarrow> ('k, 'v) cache" where
  "call c (Add k v draw) = add c k v draw"
| "call c (Get k) = (case get c k of Inl e \<Rightarrow> c | Inr (v, c') \<Rightarrow> c')"

definition run :: "('k, 'v) cache \<Rightarrow> ('k, 'v) cache_call list \<Rightarrow> ('k, 'v) cache" where
  "run c calls = foldl call c calls"

text \<open>The value of the last \<open>add\<close> of key \<open>k\<close> among the calls, if there is one.\<close>

definition last_stored :: "('k, 'v) cache_call list \<Rightarrow> 'k \<Rightarrow> 'v option" where
  "last_stored calls k =
     foldl (\<lambda>r c. case c of Add k' v draw \<Rightarrow> (if k' = k then Some v else r) | Get k' \<Rightarrow> r)
       None calls"

subsection \<open>The scenario of \<open>TestLRU.test_multiple_items_get\<close> (test/caches/test_lru.py)\<close>






subsection \<open>What a cache holds, and when it is well formed\<close>

text \<open>The cache read as a finite map from keys to values.\<close>

definition contents :: "('k, 'v) cache \<Rightarrow> 'k \<Rightarrow> 'v option" where
  "contents c k = map_option entry_value (lookup k (entries c))"

text \<open>
  The invariant of a cache: keys are unique, and no more than \<open>max_cache_size\<close>
  entries, a positive number, are held.
\<close>

definition cache_inv :: "('k, 'v) cache \<Rightarrow> bool" where
  "cache_inv c =
     (distinct (map entry_key (entries c))
      \<and> length (entries c) \<le> max_cache_size c
      \<and> 0 < max_cache_size c)"

section \<open>Properties of the strategies\<close>

lemma linear_increase_trace_result:
  "snd (linear_increase_trace s m st p a f sn fb) = linear_increase s m st p a f sn fb"
  by (simp add: linear_increase_trace_def linear_increase_def)

lemma linear_adopt_trace_result:
  "snd (linear_adopt_trace s m st p a f sn fb) = linear_adopt s m st p a f sn fb"
  by (simp add: linear_adopt_trace_def linear_adopt_def)

lemma biexponential_increase_trace_result:
  "snd (biexponential_increase_trace s m p a f sn fb) = biexponential_increase s m p a f sn fb"
  by (simp add: biexponential_increase_trace_def biexponential_increase_def split: option.split)

lemma biexponential_adopt_trace_result:
  "snd (biexponential_adopt_trace s m p a f sn fb) = biexponential_adopt s m p a f sn fb"
  by (simp add: biexponential_adopt_trace_def biexponential_adopt_def split: option.split)





text \<open>
  Claim C3.  A tick on which \<open>started_nodes\<close> and \<open>fallback_nodes\<close> are both empty
  makes \<open>linear_increase\<close> return \<open>start_retry\<close> for every \<open>previous_retry\<close> (set or
  not), and \<open>biexponential_increase\<close> return \<open>start_retry\<close> for every set
  \<open>previous_retry\<close>, whatever \<open>active_nodes\<close> and \<open>failed_nodes\<close> hold.
\<close>

theorem increase_resets_without_progress:
  "linear_increase start_retry max_retry step previous_retry active_nodes failed_nodes [] [] = Inr start_retry
   \<and> biexponential_increase start_retry max_retry (Some p) active_nodes failed_nodes [] [] = Inr start_retry"
  by (simp add: linear_increase_def biexponential_increase_def)






section \<open>Properties of the global configuration\<close>

text \<open>
  Claim C10.  \<open>from_dict\<close> leaves \<open>trace\<close> and \<open>dispatcher_strategy\<close> as they were
  for every dictionary; without the key \<open>predicates_module\<close> it changes nothing at all,
  and with it the only change is that \<open>predicates_module\<close> takes the dictionary's value.
\<close>

theorem from_dict_frame:
  "trace (from_dict cls d) = trace cls
   \<and> dispatcher_strategy (from_dict cls d) = dispatcher_strategy cls
   \<and> (''predicates_module'' \<notin> dom d \<longrightarrow> from_dict cls d = cls)
   \<and> (\<forall>v. d ''predicates_module'' = Some v \<longrightarrow> from_dict cls d = cls\<lparr>predicates_module := v\<rparr>)"
  by (auto simp add: from_dict_def split: option.splits)

theorem from_dict_frame_witness:
  "trace (from_dict GlobalConfig [''strategy'' \<mapsto> PyStr ''linear'']) = trace GlobalConfig
   \<and> dispatcher_strategy (from_dict GlobalConfig [''strategy'' \<mapsto> PyStr ''linear''])
       = dispatcher_strategy GlobalConfig
   \<and> from_dict GlobalConfig [''strategy'' \<mapsto> PyStr ''linear''] = GlobalConfig
   \<and> from_dict GlobalConfig [''predicates_module'' \<mapsto> PyStr ''my.predicates'']
       = GlobalConfig\<lparr>predicates_module := PyStr ''my.predicates''\<rparr>
   \<and> trace (from_dict GlobalConfig [''predicates_module'' \<mapsto> PyStr ''my.predicates'']) = PyNone"
  using from_dict_frame [of GlobalConfig "[''strategy'' \<mapsto> PyStr ''linear'']"]
    from_dict_frame [of GlobalConfig "[''predicates_module'' \<mapsto> PyStr ''my.predicates'']"]
  by (simp add: GlobalConfig_def)

section \<open>Properties of the MongoDB adapter\<close>

lemma retrieve_connected:
  assumes "is_connected self" and "collection self = Some docs"
  shows "retrieve self flow_name task_name task_id =
     (let cursor = collection_find docs task_id in
      if length cursor > 1 then Inl ValueError
      else case cursor of
        [] \<Rightarrow> Inl IndexError
      | rec # rest \<Rightarrow>
          (case rec ''task_name'' of
             None \<Rightarrow> Inl KeyError
           | Some stored_name \<Rightarrow>
               if PyStr task_name \<noteq> stored_name then Inl AssertionError
               else Inr (case rec ''result'' of None \<Rightarrow> PyNone | Some r \<Rightarrow> r)))"
proof (cases "collection_find docs task_id")
  case Nil
  with assms show ?thesis
    by (simp add: retrieve_def cursor_count_def cursor_bool_def cursor_getitem_def)
next
  case (Cons rec rest)
  with assms show ?thesis
    by (simp add: retrieve_def cursor_count_def cursor_bool_def cursor_getitem_def)
qed

text \<open>
  Where no document matches, the test \<open>not cursor\<close> is false, as for every cursor, and
  \<open>cursor[0]\<close> raises \<open>IndexError\<close>: the \<open>FileNotFoundError\<close> of the source is never
  raised.
\<close>

lemma retrieve_no_match:
  assumes "is_connected self" and "collection self = Some docs"
    and "collection_find docs task_id = []"
  shows "retrieve self flow_name task_name task_id = Inl IndexError"
  using assms by (simp add: retrieve_connected)

lemma retrieve_never_FileNotFoundError:
  "retrieve self flow_name task_name task_id \<noteq> Inl FileNotFoundError"
  by (simp add: retrieve_def cursor_count_def cursor_bool_def cursor_getitem_def Let_def
      split: option.splits sum.splits)

text \<open>
  Claim C8, as amended.  Called while connected, \<open>retrieve\<close> fails with \<open>ValueError\<close>
  (the ambiguity error) when more than one record matches \<open>task_id\<close>; when exactly one
  record matches and its \<open>task_name\<close> is the \<open>task_name\<close> given, it returns that
  record's result (\<open>None\<close> for a record without one); when the one record carries
  another \<open>task_name\<close> the assertion of the source fails.
\<close>

theorem retrieve_connected_result:
  assumes "is_connected self" and "collection self = Some docs"
  shows "(length (collection_find docs task_id) > 1 \<longrightarrow>
            retrieve self flow_name task_name task_id = Inl ValueError)
       \<and> (\<forall>rec. collection_find docs task_id = [rec] \<and> rec ''task_name'' = Some (PyStr task_name) \<longrightarrow>
            retrieve self flow_name task_name task_id
              = Inr (case rec ''result'' of None \<Rightarrow> PyNone | Some r \<Rightarrow> r))
       \<and> (\<forall>rec other. collection_find docs task_id = [rec] \<and> rec ''task_name'' = Some other
              \<and> other \<noteq> PyStr task_name \<longrightarrow>
            retrieve self flow_name task_name task_id = Inl AssertionError)"
  using assms by (auto simp add: retrieve_connected)

theorem retrieve_connected_result_witness:
  "retrieve
     (connect (MongoStorage ''selinon'' ''results'' ''localhost'' 27017)
        [[''task_name'' \<mapsto> PyStr ''Task1'', ''task_id'' \<mapsto> PyStr ''id1'', ''result'' \<mapsto> PyInt 42],
         [''task_name'' \<mapsto> PyStr ''Task1'', ''task_id'' \<mapsto> PyStr ''id2'', ''result'' \<mapsto> PyInt 7],
         [''task_name'' \<mapsto> PyStr ''Task1'', ''task_id'' \<mapsto> PyStr ''id2'', ''result'' \<mapsto> PyInt 8]])
     ''flow1'' ''Task1'' ''id1'' = Inr (PyInt 42)
   \<and> retrieve
     (connect (MongoStorage ''selinon'' ''results'' ''localhost'' 27017)
        [[''task_name'' \<mapsto> PyStr ''Task1'', ''task_id'' \<mapsto> PyStr ''id1'', ''result'' \<mapsto> PyInt 42],
         [''task_name'' \<mapsto> PyStr ''Task1'', ''task_id'' \<mapsto> PyStr ''id2'', ''result'' \<mapsto> PyInt 7],
         [''task_name'' \<mapsto> PyStr ''Task1'', ''task_id'' \<mapsto> PyStr ''id2'', ''result'' \<mapsto> PyInt 8]])
     ''flow1'' ''Task1'' ''id2'' = Inl ValueError"
  using
    retrieve_connected_result [of
      "connect (MongoStorage ''selinon'' ''results'' ''localhost'' 27017)
        [[''task_name'' \<mapsto> PyStr ''Task1'', ''task_id'' \<mapsto> PyStr ''id1'', ''result'' \<mapsto> PyInt 42],
         [''task_name'' \<mapsto> PyStr ''Task1'', ''task_id'' \<mapsto> PyStr ''id2'', ''result'' \<mapsto> PyInt 7],
         [''task_name'' \<mapsto> PyStr ''Task1'', ''task_id'' \<mapsto> PyStr ''id2'', ''result'' \<mapsto> PyInt 8]]"
      "[[''task_name'' \<mapsto> PyStr ''Task1'', ''task_id'' \<mapsto> PyStr ''id1'', ''result'' \<mapsto> PyInt 42],
         [''task_name'' \<mapsto> PyStr ''Task1'', ''task_id'' \<mapsto> PyStr ''id2'', ''result'' \<mapsto> PyInt 7],
         [''task_name'' \<mapsto> PyStr ''Task1'', ''task_id'' \<mapsto> PyStr ''id2'', ''result'' \<mapsto> PyInt 8]]"
      "''id1''" "''flow1''" "''Task1''"]
    retrieve_connected_result [of
      "connect (MongoStorage ''selinon'' ''results'' ''localhost'' 27017)
        [[''task_name'' \<mapsto> PyStr ''Task1'', ''task_id'' \<mapsto> PyStr ''id1'', ''result'' \<mapsto> PyInt 42],
         [''task_name'' \<mapsto> PyStr ''Task1'', ''task_id'' \<mapsto> PyStr ''id2'', ''result'' \<mapsto> PyInt 7],
         [''task_name'' \<mapsto> PyStr ''Task1'', ''task_id'' \<mapsto> PyStr ''id2'', ''result'' \<mapsto> PyInt 8]]"
      "[[''task_name'' \<mapsto> PyStr ''Task1'', ''task_id'' \<mapsto> PyStr ''id1'', ''result'' \<mapsto> PyInt 42],
         [''task_name'' \<mapsto> PyStr ''Task1'', ''task_id'' \<mapsto> PyStr ''id2'', ''result'' \<mapsto> PyInt 7],
         [''task_name'' \<mapsto> PyStr ''Task1'', ''task_id'' \<mapsto> PyStr ''id2'', ''result'' \<mapsto> PyInt 8]]"
      "''id2''" "''flow1''" "''Task1''"]
  by (simp add: is_connected_def connect_def MongoStorage_def collection_find_def)

text \<open>
  Claim C8 as stated fails where exactly one record matches \<open>task_id\<close> but was stored
  under another task name: \<open>retrieve\<close> does not return its result, the assertion
  \<open>task_name == record['task_name']\<close> fails.
\<close>

theorem retrieve_other_task_name_counterexample:
  "is_connected
     (connect (MongoStorage ''selinon'' ''results'' ''localhost'' 27017)
        [[''task_name'' \<mapsto> PyStr ''Task1'', ''task_id'' \<mapsto> PyStr ''id1'', ''result'' \<mapsto> PyInt 42]])
   \<and> length (collection_find
        [[''task_name'' \<mapsto> PyStr ''Task1'', ''task_id'' \<mapsto> PyStr ''id1'', ''result'' \<mapsto> PyInt 42]]
        ''id1'') = 1
   \<and> retrieve
     (connect (MongoStorage ''selinon'' ''results'' ''localhost'' 27017)
        [[''task_name'' \<mapsto> PyStr ''Task1'', ''task_id'' \<mapsto> PyStr ''id1'', ''result'' \<mapsto> PyInt 42]])
     ''flow1'' ''Task2'' ''id1'' = Inl AssertionError"
  by (simp add: retrieve_def is_connected_def connect_def MongoStorage_def collection_find_def
      cursor_count_def cursor_bool_def cursor_getitem_def)

lemma retrieve_empty_collection:
  "retrieve (connect (MongoStorage ''selinon'' ''results'' ''localhost'' 27017) [])
     ''flow1'' ''Task1'' ''id1'' = Inl IndexError"
  by (simp add: retrieve_def is_connected_def connect_def MongoStorage_def collection_find_def
      cursor_count_def cursor_bool_def cursor_getitem_def)

lemma store_then_retrieve:
  assumes "is_connected self" and "collection self = Some docs"
    and "collection_find docs task_id = []"
    and "store self node_args flow_name task_name task_id result = Inr (tid, self')"
  shows "tid = task_id \<and> retrieve self' flow_name task_name task_id = Inr result"
proof -
  let ?rec = "[''flow_name'' \<mapsto> PyStr flow_name, ''node_args'' \<mapsto> node_args,
               ''task_name'' \<mapsto> PyStr task_name, ''task_id'' \<mapsto> PyStr task_id,
               ''result'' \<mapsto> result, ''_id'' \<mapsto> PyInt (int (length docs))]"
  from assms(1,2,4) have tid: "tid = task_id"
    and self': "self' = self\<lparr>collection := Some (docs @ [?rec])\<rparr>"
    by (auto simp add: store_def Let_def)
  have conn: "is_connected self'" using assms(1) self' by (simp add: is_connected_def)
  have coll: "collection self' = Some (docs @ [?rec])" using self' by simp
  have found: "collection_find (docs @ [?rec]) task_id = [?rec(''_id'' := None)]"
    using assms(3) by (simp add: collection_find_def)
  have "retrieve self' flow_name task_name task_id = Inr result"
    by (simp add: retrieve_connected [OF conn coll] found)
  with tid show ?thesis by simp
qed



section \<open>Properties of the cache\<close>

subsection \<open>Entries\<close>

lemma lookup_None_iff: "lookup k es = None \<longleftrightarrow> k \<notin> entry_key ` set es"
  by (induction es) auto

lemma lookup_Some: "lookup k es = Some e \<Longrightarrow> e \<in> set es \<and> entry_key e = k"
  by (induction es) (auto split: if_splits)

lemma lookup_Some_iff:
  "distinct (map entry_key es) \<Longrightarrow> lookup k es = Some e \<longleftrightarrow> e \<in> set es \<and> entry_key e = k"
  by (induction es) (auto simp: rev_image_eqI)

lemma keys_update_entry:
  "(\<And>e. entry_key (f e) = entry_key e) \<Longrightarrow> map entry_key (update_entry k f es) = map entry_key es"
  by (induction es) (auto simp: update_entry_def)

lemma length_update_entry: "length (update_entry k f es) = length es"
  by (simp add: update_entry_def)

lemma lookup_update_entry:
  "(\<And>e. entry_key (f e) = entry_key e) \<Longrightarrow>
   lookup k' (update_entry k f es)
     = map_option (\<lambda>e. if entry_key e = k then f e else e) (lookup k' es)"
  by (induction es) (auto simp: update_entry_def)

lemma oldest_mem: "oldest e es \<in> set (e # es)"
  by (induction es arbitrary: e) (auto split: if_splits)

lemma newest_mem: "newest e es \<in> set (e # es)"
  by (induction es arbitrary: e) (auto split: if_splits)

lemma choose_victim_mem:
  assumes "choose_victim pol draw es = Some v"
  shows "v \<in> set es"
proof (cases es)
  case Nil
  with assms show ?thesis by (simp add: choose_victim_def)
next
  case (Cons e rest)
  have rr: "es ! (draw mod length es) \<in> set es"
    using Cons by (intro nth_mem mod_less_divisor) simp
  from assms Cons rr oldest_mem [of e rest] newest_mem [of e rest] show ?thesis
    by (cases pol) (auto simp: choose_victim_def)
qed

lemma choose_victim_nonempty: "es \<noteq> [] \<Longrightarrow> \<exists>v. choose_victim pol draw es = Some v"
  by (cases es) (auto simp: choose_victim_def)

lemma keys_remove1:
  assumes "distinct (map entry_key es)" and "v \<in> set es"
  shows "set (map entry_key (remove1 v es)) = set (map entry_key es) - {entry_key v}"
proof -
  from assms(1) have d: "distinct es" and inj: "inj_on entry_key (set es)"
    by (simp_all add: distinct_map)
  have "set (remove1 v es) = set es - {v}" using d by simp
  then have "entry_key ` set (remove1 v es) = entry_key ` (set es - {v})" by simp
  also have "\<dots> = entry_key ` set es - entry_key ` {v}"
    using inj assms(2) by (intro inj_on_image_set_diff [of entry_key "set es"]) auto
  finally show ?thesis by simp
qed

lemma distinct_keys_remove1:
  assumes "distinct (map entry_key es)"
  shows "distinct (map entry_key (remove1 v es))"
proof -
  from assms have d: "distinct es" and inj: "inj_on entry_key (set es)"
    by (simp_all add: distinct_map)
  have "inj_on entry_key (set (remove1 v es))"
    using inj set_remove1_subset [of v es] by (rule inj_on_subset)
  with d show ?thesis by (simp add: distinct_map)
qed

lemma length_remove1_mem: "v \<in> set es \<Longrightarrow> Suc (length (remove1 v es)) = length es"
  by (induction es) auto

subsection \<open>One \<open>add\<close>\<close>

lemma add_fields [simp]:
  "max_cache_size (add c k v draw) = max_cache_size c"
  "cache_policy (add c k v draw) = cache_policy c"
  by (simp_all add: add_def Let_def split: option.splits)

lemma add_present:
  assumes "k \<in> cache_keys c"
  shows "map entry_key (entries (add c k v draw)) = map entry_key (entries c)"
    and "contents (add c k v draw) = (contents c)(k \<mapsto> v)"
proof -
  from assms have "lookup k (entries c) \<noteq> None"
    by (simp add: lookup_None_iff cache_keys_def)
  then obtain e where e: "lookup k (entries c) = Some e" by blast
  then have ke: "entry_key e = k" using lookup_Some by fastforce
  show "map entry_key (entries (add c k v draw)) = map entry_key (entries c)"
    using e by (simp add: add_def keys_update_entry)
  show "contents (add c k v draw) = (contents c)(k \<mapsto> v)"
  proof
    fix k'
    show "contents (add c k v draw) k' = ((contents c)(k \<mapsto> v)) k'"
    proof (cases "lookup k' (entries c)")
      case None
      then have "k' \<noteq> k" using e by auto
      with None e show ?thesis
        by (simp add: contents_def add_def lookup_update_entry)
    next
      case (Some e')
      then have "entry_key e' = k'" using lookup_Some by fastforce
      with Some e show ?thesis
        by (auto simp add: contents_def add_def lookup_update_entry)
    qed
  qed
qed

lemma add_new_below:
  assumes "k \<notin> cache_keys c" and "length (entries c) < max_cache_size c"
  shows "entries (add c k v draw)
     = entries c @ [\<lparr>entry_key = k, entry_value = v, recency_rank = sequence_counter c\<rparr>]"
proof -
  from assms(1) have "lookup k (entries c) = None"
    by (simp add: lookup_None_iff cache_keys_def)
  with assms(2) show ?thesis by (simp add: add_def)
qed

lemma add_new_full:
  assumes "k \<notin> cache_keys c" and "max_cache_size c \<le> length (entries c)"
    and "entries c \<noteq> []"
  shows "\<exists>victim \<in> set (entries c). entries (add c k v draw)
     = remove1 victim (entries c)
       @ [\<lparr>entry_key = k, entry_value = v, recency_rank = sequence_counter c\<rparr>]"
proof -
  from assms(1) have none: "lookup k (entries c) = None"
    by (simp add: lookup_None_iff cache_keys_def)
  from assms(3) obtain victim where vic: "choose_victim (cache_policy c) draw (entries c) = Some victim"
    using choose_victim_nonempty by blast
  then have "victim \<in> set (entries c)" by (rule choose_victim_mem)
  moreover have "entries (add c k v draw)
     = remove1 victim (entries c)
       @ [\<lparr>entry_key = k, entry_value = v, recency_rank = sequence_counter c\<rparr>]"
    using none vic assms(2) by (simp add: add_def)
  ultimately show ?thesis by blast
qed

lemma add_inv:
  assumes "cache_inv c"
  shows "cache_inv (add c k v draw)"
proof (cases "k \<in> cache_keys c")
  case True
  from add_present(1) [OF True, of v draw]
  have keys: "map entry_key (entries (add c k v draw)) = map entry_key (entries c)" .
  then have "length (entries (add c k v draw)) = length (entries c)"
    using length_map by metis
  with keys assms show ?thesis by (simp add: cache_inv_def)
next
  case False
  then have fresh: "k \<notin> entry_key ` set (entries c)" by (simp add: cache_keys_def)
  show ?thesis
  proof (cases "length (entries c) < max_cache_size c")
    case True
    from add_new_below [OF False True, of v draw] fresh assms True show ?thesis
      by (simp add: cache_inv_def)
  next
    case full: False
    then have ne: "entries c \<noteq> []" using assms by (auto simp: cache_inv_def)
    from full have le: "max_cache_size c \<le> length (entries c)" by simp
    from add_new_full [OF False le ne, of v draw] obtain victim where
      vic: "victim \<in> set (entries c)" and
      ent: "entries (add c k v draw)
        = remove1 victim (entries c)
          @ [\<lparr>entry_key = k, entry_value = v, recency_rank = sequence_counter c\<rparr>]"
      by blast
    from assms have d: "distinct (map entry_key (entries c))" by (simp add: cache_inv_def)
    have d': "distinct (map entry_key (remove1 victim (entries c)))"
      using d by (rule distinct_keys_remove1)
    have fresh': "k \<notin> set (map entry_key (remove1 victim (entries c)))"
      using fresh keys_remove1 [OF d vic] by simp
    have len: "Suc (length (remove1 victim (entries c))) = length (entries c)"
      using vic by (rule length_remove1_mem)
    from d' fresh' len assms ent show ?thesis
      by (simp add: cache_inv_def)
  qed
qed

lemma add_new_contents:
  assumes "cache_inv c" and "k \<notin> cache_keys c" and "contents (add c k v draw) k' = Some v'"
  shows "(k' = k \<and> v' = v) \<or> contents c k' = Some v'"
proof -
  let ?new = "\<lparr>entry_key = k, entry_value = v, recency_rank = sequence_counter c\<rparr>"
  from assms(1) have d: "distinct (map entry_key (entries c))" by (simp add: cache_inv_def)
  have d': "distinct (map entry_key (entries (add c k v draw)))"
    using add_inv [OF assms(1), of k v draw] by (simp add: cache_inv_def)
  have sub: "set (entries (add c k v draw)) \<subseteq> set (entries c) \<union> {?new}"
  proof (cases "length (entries c) < max_cache_size c")
    case True
    from add_new_below [OF assms(2) True, of v draw] show ?thesis by auto
  next
    case False
    then have le: "max_cache_size c \<le> length (entries c)" by simp
    from False assms(1) have ne: "entries c \<noteq> []" by (auto simp: cache_inv_def)
    from add_new_full [OF assms(2) le ne, of v draw] obtain victim where
      "entries (add c k v draw) = remove1 victim (entries c) @ [?new]" by blast
    then show ?thesis using set_remove1_subset [of victim "entries c"] by auto
  qed
  from assms(3) obtain e where e: "lookup k' (entries (add c k v draw)) = Some e"
    and ev: "entry_value e = v'"
    by (auto simp: contents_def)
  from e have mem: "e \<in> set (entries (add c k v draw))" and ek: "entry_key e = k'"
    using lookup_Some by fastforce+
  from mem sub have "e = ?new \<or> e \<in> set (entries c)" by auto
  then show ?thesis
  proof
    assume "e = ?new"
    with ek ev show ?thesis by auto
  next
    assume "e \<in> set (entries c)"
    with ek have "lookup k' (entries c) = Some e" using lookup_Some_iff [OF d] by blast
    with ev show ?thesis by (simp add: contents_def)
  qed
qed

subsection \<open>One \<open>get\<close>\<close>

lemma contents_None_iff: "contents c k = None \<longleftrightarrow> k \<notin> cache_keys c"
  by (simp add: contents_def cache_keys_def lookup_None_iff)

lemma get_miss_iff: "get c k = Inl CacheMissError \<longleftrightarrow> k \<notin> cache_keys c"
proof -
  have "get c k = Inl CacheMissError \<longleftrightarrow> lookup k (entries c) = None"
    by (simp add: get_def split: option.splits)
  then show ?thesis by (simp add: lookup_None_iff cache_keys_def)
qed

lemma get_only_miss: "get c k = Inl e \<Longrightarrow> e = CacheMissError"
  by (auto simp add: get_def split: option.splits)

lemma get_hit:
  assumes "get c k = Inr (v, c')"
  shows "contents c k = Some v"
    and "map entry_key (entries c') = map entry_key (entries c)"
    and "max_cache_size c' = max_cache_size c"
    and "cache_policy c' = cache_policy c"
    and "contents c' = contents c"
proof -
  from assms obtain e where e: "lookup k (entries c) = Some e" and v: "v = entry_value e"
    and c': "c' = (if get_updates_order (cache_policy c)
               then c\<lparr>entries :=
                        update_entry k (\<lambda>e. e\<lparr>recency_rank := sequence_counter c\<rparr>) (entries c),
                      sequence_counter := sequence_counter c + 1\<rparr>
               else c)"
    by (auto simp add: get_def split: option.splits)
  show "contents c k = Some v" using e v by (simp add: contents_def)
  show "map entry_key (entries c') = map entry_key (entries c)"
    using c' by (simp add: keys_update_entry)
  show "max_cache_size c' = max_cache_size c" using c' by simp
  show "cache_policy c' = cache_policy c" using c' by simp
  show "contents c' = contents c"
  proof
    fix k'
    show "contents c' k' = contents c k'"
      using c' by (cases "lookup k' (entries c)")
        (simp_all add: contents_def lookup_update_entry)
  qed
qed

lemma get_present:
  assumes "k \<in> cache_keys c"
  shows "\<exists>v c'. get c k = Inr (v, c')"
proof -
  from assms have "lookup k (entries c) \<noteq> None"
    by (simp add: lookup_None_iff cache_keys_def)
  then obtain e where "lookup k (entries c) = Some e" by blast
  then show ?thesis by (simp add: get_def)
qed

lemma get_inv:
  assumes "cache_inv c" and "get c k = Inr (v, c')"
  shows "cache_inv c'"
proof -
  from get_hit(2) [OF assms(2)] have keys: "map entry_key (entries c') = map entry_key (entries c)" .
  then have "length (entries c') = length (entries c)" using length_map by metis
  with keys get_hit(3) [OF assms(2)] assms(1) show ?thesis by (simp add: cache_inv_def)
qed

subsection \<open>Sequences of calls\<close>

lemma run_snoc: "run c (calls @ [x]) = call (run c calls) x"
  by (simp add: run_def)

lemma last_stored_snoc:
  "last_stored (calls @ [x]) k =
     (case x of Add k' v draw \<Rightarrow> (if k' = k then Some v else last_stored calls k)
              | Get k' \<Rightarrow> last_stored calls k)"
  by (cases x) (simp_all add: last_stored_def)

lemma call_inv: "cache_inv c \<Longrightarrow> cache_inv (call c x)"
  by (cases x) (auto simp: add_inv get_inv split: sum.splits)

lemma call_max: "max_cache_size (call c x) = max_cache_size c"
  by (cases x) (auto simp: get_hit(3) split: sum.splits)

lemma run_inv: "cache_inv c \<Longrightarrow> cache_inv (run c calls)"
  by (induction calls rule: rev_induct) (simp_all add: run_def call_inv)

lemma run_max: "max_cache_size (run c calls) = max_cache_size c"
  by (induction calls rule: rev_induct) (simp_all add: run_def call_max)

lemma new_cache_inv:
  assumes "new_cache pol n = Inr c0"
  shows "cache_inv c0" and "entries c0 = []" and "max_cache_size c0 = nat n" and "0 < n"
  using assms by (auto simp add: new_cache_def cache_inv_def split: if_splits)

lemma run_contents:
  assumes "cache_inv c0" and "entries c0 = []"
  shows "contents (run c0 calls) k = Some v \<Longrightarrow> last_stored calls k = Some v"
proof (induction calls arbitrary: k v rule: rev_induct)
  case Nil
  with assms(2) show ?case by (simp add: run_def contents_def)
next
  case (snoc x calls)
  let ?c = "run c0 calls"
  have inv: "cache_inv ?c" using assms(1) by (rule run_inv)
  show ?case
  proof (cases x)
    case (Add k' v' draw)
    with snoc.prems have holds: "contents (add ?c k' v' draw) k = Some v"
      by (simp add: run_snoc)
    show ?thesis
    proof (cases "k' \<in> cache_keys ?c")
      case True
      from holds add_present(2) [OF True, of v' draw]
      have "((contents ?c)(k' \<mapsto> v')) k = Some v" by simp
      then show ?thesis using Add snoc.IH [of k v]
        by (auto simp add: last_stored_snoc split: if_splits)
    next
      case False
      from add_new_contents [OF inv False holds]
      have "(k = k' \<and> v = v') \<or> contents ?c k = Some v" .
      then show ?thesis
      proof
        assume "k = k' \<and> v = v'"
        with Add show ?thesis by (simp add: last_stored_snoc)
      next
        assume old: "contents ?c k = Some v"
        then have "k \<in> cache_keys ?c" using contents_None_iff [of ?c k] by simp
        with False have "k' \<noteq> k" by blast
        with Add old snoc.IH [of k v] show ?thesis by (simp add: last_stored_snoc)
      qed
    qed
  next
    case (Get k')
    have same: "contents (call ?c (Get k')) = contents ?c"
      by (auto simp add: get_hit(5) split: sum.splits)
    with snoc.prems Get have "contents ?c k = Some v" by (simp add: run_snoc)
    then show ?thesis using Get snoc.IH [of k v] by (simp add: last_stored_snoc)
  qed
qed

subsection \<open>The claims about the cache\<close>

text \<open>
  Claim \<lparr>cache_policy = LRU, max_cache_size = 16, entries = [\<lparr>entry_key = 0, entry_value = ''x0'', recency_rank = 0\<rparr>,
        \<lparr>entry_key = 1, entry_value = ''x1'', recency_rank = 19\<rparr>,
        \<lparr>entry_key = 2, entry_value = ''x2'', recency_rank = 2\<rparr>,
        \<lparr>entry_key = 3, entry_value = ''x3'', recency_rank = 18\<rparr>,
        \<lparr>entry_key = 4, entry_value = ''x4'', recency_rank = 4\<rparr>,
        \<lparr>entry_key = 5, entry_value = ''x5'', recency_rank = 17\<rparr>,
        \<lparr>entry_key = 6, entry_value = ''x6'', recency_rank = 6\<rparr>,
        \<lparr>entry_key = 7, entry_value = ''x7'', recency_rank = 20\<rparr>,
        \<lparr>entry_key = 8, entry_value = ''x8'', recency_rank = 8\<rparr>,
        \<lparr>entry_key = 9, entry_value = ''x9'', recency_rank = 9\<rparr>,
        \<lparr>entry_key = 10, entry_value = ''x10'', recency_rank = 16\<rparr>,
        \<lparr>entry_key = 11, entry_value = ''x11'', recency_rank = 11\<rparr>,
        \<lparr>entry_key = 12, entry_value = ''x12'', recency_rank = 12\<rparr>,
        \<lparr>entry_key = 13, entry_value = ''x13'', recency_rank = 13\<rparr>,
        \<lparr>entry_key = 14, entry_value = ''x14'', recency_rank = 14\<rparr>,
        \<lparr>entry_key = 15, entry_value = ''x15'', recency_rank = 15\<rparr>], sequence_counter = 21\<rparr>.  A cache is constructed with a positive \<open>max_cache_size\<close>; after every
  call of a sequence of calls (any prefix of it) its size is at most
  \<open>max_cache_size\<close>, for every policy and all random draws.  An \<open>add\<close> of a new key
  to a cache at capacity evicts exactly one of the keys held, and the size stays;
  below capacity it evicts nothing, and the \<open>add\<close> of a key held evicts nothing.
\<close>

theorem cache_capacity_invariant:
  assumes "new_cache pol n = Inr c0"
  shows "cache_size (run c0 (take i calls)) \<le> max_cache_size c0
       \<and> max_cache_size c0 = nat n \<and> 0 < n
       \<and> (k \<notin> cache_keys (run c0 calls) \<and> cache_size (run c0 calls) = max_cache_size c0 \<longrightarrow>
            (\<exists>victim \<in> cache_keys (run c0 calls).
               cache_keys (add (run c0 calls) k v draw)
                 = insert k (cache_keys (run c0 calls) - {victim})
               \<and> cache_size (add (run c0 calls) k v draw) = cache_size (run c0 calls)))
       \<and> (k \<notin> cache_keys (run c0 calls) \<and> cache_size (run c0 calls) < max_cache_size c0 \<longrightarrow>
            cache_keys (add (run c0 calls) k v draw) = insert k (cache_keys (run c0 calls))
            \<and> cache_size (add (run c0 calls) k v draw) = Suc (cache_size (run c0 calls)))
       \<and> (k \<in> cache_keys (run c0 calls) \<longrightarrow>
            cache_keys (add (run c0 calls) k v draw) = cache_keys (run c0 calls)
            \<and> cache_size (add (run c0 calls) k v draw) = cache_size (run c0 calls))"
proof -
  let ?c = "run c0 calls"
  note c0 = new_cache_inv [OF assms]
  have inv: "cache_inv ?c" using c0(1) by (rule run_inv)
  have mx: "max_cache_size ?c = max_cache_size c0" by (rule run_max)
  have bound: "cache_size (run c0 (take i calls)) \<le> max_cache_size c0"
    using run_inv [OF c0(1), of "take i calls"] run_max [of c0 "take i calls"]
    by (simp add: cache_inv_def cache_size_def)
  have full: "\<exists>victim \<in> cache_keys ?c.
               cache_keys (add ?c k v draw) = insert k (cache_keys ?c - {victim})
               \<and> cache_size (add ?c k v draw) = cache_size ?c"
    if fresh: "k \<notin> cache_keys ?c" and cap: "cache_size ?c = max_cache_size c0"
  proof -
    from cap mx have le: "max_cache_size ?c \<le> length (entries ?c)"
      by (simp add: cache_size_def)
    from inv le have ne: "entries ?c \<noteq> []" by (auto simp: cache_inv_def)
    from inv have d: "distinct (map entry_key (entries ?c))" by (simp add: cache_inv_def)
    from add_new_full [OF fresh le ne, of v draw] obtain ve where
      ve: "ve \<in> set (entries ?c)" and
      ent: "entries (add ?c k v draw)
        = remove1 ve (entries ?c)
          @ [\<lparr>entry_key = k, entry_value = v, recency_rank = sequence_counter ?c\<rparr>]"
      by blast
    have "entry_key ve \<in> cache_keys ?c" using ve by (simp add: cache_keys_def)
    moreover have "cache_keys (add ?c k v draw) = insert k (cache_keys ?c - {entry_key ve})"
      using keys_remove1 [OF d ve] ent by (simp add: cache_keys_def)
    moreover have "cache_size (add ?c k v draw) = cache_size ?c"
      using length_remove1_mem [OF ve] ent by (simp add: cache_size_def)
    ultimately show ?thesis by blast
  qed
  have below: "cache_keys (add ?c k v draw) = insert k (cache_keys ?c)
            \<and> cache_size (add ?c k v draw) = Suc (cache_size ?c)"
    if fresh: "k \<notin> cache_keys ?c" and room: "cache_size ?c < max_cache_size c0"
  proof -
    from room mx have lt: "length (entries ?c) < max_cache_size ?c"
      by (simp add: cache_size_def)
    from add_new_below [OF fresh lt, of v draw] show ?thesis
      by (simp add: cache_keys_def cache_size_def)
  qed
  have present: "cache_keys (add ?c k v draw) = cache_keys ?c
            \<and> cache_size (add ?c k v draw) = cache_size ?c"
    if held: "k \<in> cache_keys ?c"
  proof -
    from add_present(1) [OF held, of v draw]
    have keys: "map entry_key (entries (add ?c k v draw)) = map entry_key (entries ?c)" .
    then have "length (entries (add ?c k v draw)) = length (entries ?c)"
      using length_map by metis
    with keys show ?thesis by (simp add: cache_keys_def cache_size_def)
  qed
  from bound c0(3,4) full below present show ?thesis by blast
qed

theorem cache_capacity_invariant_witness:
  "new_cache LRU 2
     = Inr \<lparr>cache_policy = LRU, max_cache_size = 2, entries = ([] :: (nat, string) cache_entry list),
            sequence_counter = 0\<rparr>
   \<and> cache_size
       (run \<lparr>cache_policy = LRU, max_cache_size = 2, entries = ([] :: (nat, string) cache_entry list),
              sequence_counter = 0\<rparr>
          (take 2 [Add 1 ''a'' 0, Add 2 ''b'' 0])) \<le> 2
   \<and> cache_keys
       (run \<lparr>cache_policy = LRU, max_cache_size = 2, entries = ([] :: (nat, string) cache_entry list),
              sequence_counter = 0\<rparr>
          [Add 1 ''a'' 0, Add 2 ''b'' 0]) = {1, 2}
   \<and> (\<exists>victim \<in> {1, 2}.
        cache_keys
          (add (run \<lparr>cache_policy = LRU, max_cache_size = 2,
                      entries = ([] :: (nat, string) cache_entry list), sequence_counter = 0\<rparr>
                  [Add 1 ''a'' 0, Add 2 ''b'' 0]) 3 ''c'' 0)
          = insert 3 ({1, 2} - {victim}))"
proof -
  let ?c0 = "\<lparr>cache_policy = LRU, max_cache_size = 2,
               entries = ([] :: (nat, string) cache_entry list), sequence_counter = 0\<rparr>"
  let ?calls = "[Add 1 ''a'' 0, Add 2 ''b'' 0] :: (nat, string) cache_call list"
  have new: "new_cache LRU 2 = Inr ?c0" by (simp add: new_cache_def)
  have keys: "cache_keys (run ?c0 ?calls) = {1, 2}"
    by (auto simp add: run_def add_def cache_keys_def)
  have size: "cache_size (run ?c0 ?calls) = max_cache_size ?c0"
    by (simp add: run_def add_def cache_size_def)
  from cache_capacity_invariant [OF new, of 2 ?calls 3 "''c''" 0] keys size new
  show ?thesis by simp
qed

text \<open>
  Claim C7.  In every state a cache of any policy reaches, \<open>get\<close> fails with
  \<open>CacheMiss\<close> iff the key is absent, and with nothing else; a key never added is
  absent; on a key that is present \<open>get\<close> succeeds and returns the value of the last
  \<open>add\<close> of that key.
\<close>

theorem get_miss_iff_absent:
  assumes "new_cache pol n = Inr c0"
  shows "(get (run c0 calls) k = Inl CacheMissError) = (k \<notin> cache_keys (run c0 calls))
       \<and> (\<forall>e. get (run c0 calls) k = Inl e \<longrightarrow> e = CacheMissError)
       \<and> (k \<in> cache_keys (run c0 calls) \<longrightarrow>
            (\<exists>v c'. get (run c0 calls) k = Inr (v, c') \<and> last_stored calls k = Some v))
       \<and> (last_stored calls k = None \<longrightarrow> get (run c0 calls) k = Inl CacheMissError)"
proof -
  let ?c = "run c0 calls"
  note c0 = new_cache_inv [OF assms]
  have miss: "(get ?c k = Inl CacheMissError) = (k \<notin> cache_keys ?c)" by (rule get_miss_iff)
  have only: "\<forall>e. get ?c k = Inl e \<longrightarrow> e = CacheMissError"
  proof (intro allI impI)
    fix e
    assume "get ?c k = Inl e"
    then show "e = CacheMissError" by (rule get_only_miss)
  qed
  have hit: "\<exists>v c'. get ?c k = Inr (v, c') \<and> last_stored calls k = Some v"
    if "k \<in> cache_keys ?c"
  proof -
    from get_present [OF that] obtain v c' where g: "get ?c k = Inr (v, c')" by blast
    from get_hit(1) [OF g] have "contents ?c k = Some v" .
    then have "last_stored calls k = Some v" by (rule run_contents [OF c0(1,2)])
    with g show ?thesis by blast
  qed
  have never: "get ?c k = Inl CacheMissError" if "last_stored calls k = None"
  proof (rule ccontr)
    assume "get ?c k \<noteq> Inl CacheMissError"
    with miss have "k \<in> cache_keys ?c" by simp
    from hit [OF this] that show False by simp
  qed
  from miss only hit never show ?thesis by blast
qed

theorem get_miss_iff_absent_witness:
  "new_cache LRU 1
     = Inr \<lparr>cache_policy = LRU, max_cache_size = 1, entries = ([] :: (string, int) cache_entry list),
            sequence_counter = 0\<rparr>
   \<and> get (run \<lparr>cache_policy = LRU, max_cache_size = 1,
                 entries = ([] :: (string, int) cache_entry list), sequence_counter = 0\<rparr>
             [Add ''a'' 1 0, Add ''b'' 2 0]) ''a'' = Inl CacheMissError
   \<and> (\<exists>c'. get (run \<lparr>cache_policy = LRU, max_cache_size = 1,
                 entries = ([] :: (string, int) cache_entry list), sequence_counter = 0\<rparr>
             [Add ''a'' 1 0, Add ''b'' 2 0]) ''b'' = Inr (2, c'))"
proof -
  let ?c0 = "\<lparr>cache_policy = LRU, max_cache_size = 1,
               entries = ([] :: (string, int) cache_entry list), sequence_counter = 0\<rparr>"
  let ?calls = "[Add ''a'' 1 0, Add ''b'' 2 0] :: (string, int) cache_call list"
  have new: "new_cache LRU 1 = Inr ?c0" by (simp add: new_cache_def)
  have keys: "cache_keys (run ?c0 ?calls) = {''b''}"
    by (simp add: run_def add_def cache_keys_def choose_victim_def)
  have last: "last_stored ?calls ''b'' = Some 2" by (simp add: last_stored_def)
  from get_miss_iff_absent [OF new, of ?calls "''a''"] keys
  have a: "get (run ?c0 ?calls) ''a'' = Inl CacheMissError" by simp
  from get_miss_iff_absent [OF new, of ?calls "''b''"] keys last
  have b: "\<exists>c'. get (run ?c0 ?calls) ''b'' = Inr (2, c')" by simp
  from new a b show ?thesis by blast
qed

subsection \<open>The LRU scenario\<close>









end
